theory Spec2Isabelle
  imports Main "HOL-Library.Word"
begin

unbundle bit_operations_syntax

section \<open>The EEPROM buffer\<close>

text \<open>
  Both containers keep their whole state in the byte buffer that
  \<^verbatim>\<open>EEPROM.getDataPtr()\<close> returns. The buffer is modelled as a function from
  byte offsets (counted from that pointer) to bytes. The source is written for the
  ESP8266: \<^verbatim>\<open>unsigned\<close> and \<^verbatim>\<open>std::size_t\<close> are both 32 bits wide and
  stored little-endian, so the fields of \<^verbatim>\<open>storage_area\<close> are four bytes each
  and follow one another without padding, as \<^verbatim>\<open>storage_area::data()\<close> assumes.
  The constructor's \<^verbatim>\<open>int offset\<close> is taken as a natural number. The source
  never looks at the length of the buffer, and the model has none. The slot
  addresses of \<open>read_slot\<close> and \<open>write_slot\<close> are computed without a bound.
  That is the address the code computes for every slot of a region that lies in the
  address space, as the specification obliges the caller to provide; for a store
  outside the region, section \<open>Stores outside the region\<close> gives the address
  with the 32-bit pointer arithmetic of the target.
\<close>

type_synonym byte = "8 word"
type_synonym eeprom = "nat \<Rightarrow> byte"

definition read_u32 :: "nat \<Rightarrow> eeprom \<Rightarrow> 32 word" where
  "read_u32 a m =
     ucast (m a) OR push_bit 8 (ucast (m (a + 1))) OR
     push_bit 16 (ucast (m (a + 2))) OR push_bit 24 (ucast (m (a + 3)))"

definition write_u32 :: "nat \<Rightarrow> 32 word \<Rightarrow> eeprom \<Rightarrow> eeprom" where
  "write_u32 a w m =
     m(a := ucast w, a + 1 := ucast (drop_bit 8 w),
       a + 2 := ucast (drop_bit 16 w), a + 3 := ucast (drop_bit 24 w))"

definition read_bytes :: "nat \<Rightarrow> nat \<Rightarrow> eeprom \<Rightarrow> byte list" where
  "read_bytes a n m = map m [a ..< a + n]"

definition write_bytes :: "nat \<Rightarrow> byte list \<Rightarrow> eeprom \<Rightarrow> eeprom" where
  "write_bytes a bs m = (\<lambda>x. if a \<le> x \<and> x < a + length bs then bs ! (x - a) else m x)"

subsection \<open>The element type\<close>

text \<open>
  The template parameter \<^verbatim>\<open>T\<close>: its size in bytes and its object representation.
  Assigning to a slot stores the representation of the value, reading a slot loads
  the value back from the \<^verbatim>\<open>sizeof(T)\<close> bytes found there. The containers
  are meant for element types of fixed size that can be copied byte for byte:
  \<open>trivially_copyable\<close> says that the representation has \<^verbatim>\<open>sizeof(T)\<close>
  bytes and determines the value.
\<close>

record 'a value_type =
  sizeof :: nat
  store :: "'a \<Rightarrow> byte list"
  load :: "byte list \<Rightarrow> 'a"

definition trivially_copyable :: "'a value_type \<Rightarrow> bool" where
  "trivially_copyable T \<longleftrightarrow>
     (\<forall>v. length (store T v) = sizeof T \<and> load T (store T v) = v)"

definition read_slot :: "'a value_type \<Rightarrow> nat \<Rightarrow> nat \<Rightarrow> eeprom \<Rightarrow> 'a" where
  "read_slot T d i m = load T (read_bytes (d + i * sizeof T) (sizeof T) m)"

definition write_slot :: "'a value_type \<Rightarrow> nat \<Rightarrow> nat \<Rightarrow> 'a \<Rightarrow> eeprom \<Rightarrow> eeprom" where
  "write_slot T d i v m = write_bytes (d + i * sizeof T) (store T v) m"

text \<open>
  \<open>read_slot\<close> and \<open>write_slot\<close> are \<^verbatim>\<open>data()[i]\<close> for the slots of a
  region that lies in the address space: there the address \<open>d + i * sizeof T\<close>
  stays below \<open>2 ^ 32\<close>. A store whose address leaves the address space is
  \<open>write_slot32\<close>, further down.
\<close>

text \<open>The element type \<^verbatim>\<open>unsigned\<close>, used for the concrete scenarios.\<close>

definition unsigned_type :: "32 word value_type" where
  "unsigned_type =
     \<lparr> sizeof = 4,
       store = (\<lambda>w. [ucast w, ucast (drop_bit 8 w), ucast (drop_bit 16 w),
                       ucast (drop_bit 24 w)]),
       load = (\<lambda>bs. read_u32 0 (\<lambda>i. bs ! i)) \<rparr>"

text \<open>A buffer that was never written: every byte is \<^verbatim>\<open>0xff\<close>, as erased flash is.\<close>

definition erased :: eeprom where
  "erased = (\<lambda>_. 255)"

section \<open>persistent\_queue\<close>

text \<open>
  The handle holds the members \<^verbatim>\<open>capacity_\<close> and \<^verbatim>\<open>storage_\<close> (here
  \<open>capacity_q\<close> and \<open>storage_q\<close>); the latter is the offset of the
  \<^verbatim>\<open>storage_area\<close> header in the buffer. The header fields
  \<^verbatim>\<open>signature\<close>, \<^verbatim>\<open>begin\<close>, \<^verbatim>\<open>end\<close>, \<^verbatim>\<open>size\<close> sit at offsets 0, 4, 8, 12
  from there and \<^verbatim>\<open>data()\<close> starts at offset 16.
\<close>

record queue_handle =
  capacity_q :: "32 word"
  storage_q :: nat

definition q_SIGNATURE :: "32 word" where
  "q_SIGNATURE = 0xa2bedef9"

definition q_signature_addr :: "queue_handle \<Rightarrow> nat" where
  "q_signature_addr h = storage_q h"

definition q_begin_addr :: "queue_handle \<Rightarrow> nat" where
  "q_begin_addr h = storage_q h + 4"

definition q_end_addr :: "queue_handle \<Rightarrow> nat" where
  "q_end_addr h = storage_q h + 4 + 4"

definition q_size_addr :: "queue_handle \<Rightarrow> nat" where
  "q_size_addr h = storage_q h + 4 + 4 + 4"

definition q_data :: "queue_handle \<Rightarrow> nat" where
  "q_data h = storage_q h + 4 + 4 + 4 + 4"

definition q_signature :: "queue_handle \<Rightarrow> eeprom \<Rightarrow> 32 word" where
  "q_signature h m = read_u32 (q_signature_addr h) m"

definition q_begin :: "queue_handle \<Rightarrow> eeprom \<Rightarrow> 32 word" where
  "q_begin h m = read_u32 (q_begin_addr h) m"

definition q_end :: "queue_handle \<Rightarrow> eeprom \<Rightarrow> 32 word" where
  "q_end h m = read_u32 (q_end_addr h) m"

definition persistent_queue :: "nat \<Rightarrow> 32 word \<Rightarrow> eeprom \<Rightarrow> queue_handle \<times> eeprom" where
  "persistent_queue offset capacity m =
     (let h = \<lparr> capacity_q = capacity, storage_q = offset \<rparr> in
      if q_signature h m \<noteq> q_SIGNATURE then
        let m1 = write_u32 (q_signature_addr h) q_SIGNATURE m;
            m2 = write_u32 (q_begin_addr h) 0 m1;
            m3 = write_u32 (q_end_addr h) 0 m2;
            m4 = write_u32 (q_size_addr h) 0 m3
        in (h, m4)
      else (h, m))"

definition q_size :: "queue_handle \<Rightarrow> eeprom \<Rightarrow> 32 word" where
  "q_size h m = read_u32 (q_size_addr h) m"

definition q_capacity :: "queue_handle \<Rightarrow> 32 word" where
  "q_capacity h = capacity_q h"

definition q_empty :: "queue_handle \<Rightarrow> eeprom \<Rightarrow> bool" where
  "q_empty h m \<longleftrightarrow> q_size h m = 0"

definition q_full :: "queue_handle \<Rightarrow> eeprom \<Rightarrow> bool" where
  "q_full h m \<longleftrightarrow> q_size h m = q_capacity h"

definition q_front :: "'a value_type \<Rightarrow> queue_handle \<Rightarrow> eeprom \<Rightarrow> 'a" where
  "q_front T h m = read_slot T (q_data h) (unat (q_begin h m)) m"

text \<open>
  \<^verbatim>\<open>increment(unsigned& idx)\<close>: the reference is the address of the field;
  \<^verbatim>\<open>++idx\<close> stores the wrapped sum, and the result is compared with
  \<^verbatim>\<open>capacity_\<close>.
\<close>

definition q_increment :: "queue_handle \<Rightarrow> nat \<Rightarrow> eeprom \<Rightarrow> eeprom" where
  "q_increment h idx m =
     (let m1 = write_u32 idx (read_u32 idx m + 1) m in
      if read_u32 idx m1 = capacity_q h then write_u32 idx 0 m1 else m1)"

text \<open>
  The two overloads of \<^verbatim>\<open>push\<close> (by constant reference and by rvalue reference)
  have the same body up to \<^verbatim>\<open>std::move\<close>; one definition stands for both.
\<close>

definition q_push :: "'a value_type \<Rightarrow> queue_handle \<Rightarrow> 'a \<Rightarrow> eeprom \<Rightarrow> bool \<times> eeprom" where
  "q_push T h v m =
     (if q_full h m then (False, m)
      else
        let m1 = write_slot T (q_data h) (unat (q_end h m)) v m;
            m2 = q_increment h (q_end_addr h) m1;
            m3 = write_u32 (q_size_addr h) (read_u32 (q_size_addr h) m2 + 1) m2
        in (True, m3))"

definition q_pop :: "queue_handle \<Rightarrow> eeprom \<Rightarrow> bool \<times> eeprom" where
  "q_pop h m =
     (if q_empty h m then (False, m)
      else
        let m1 = q_increment h (q_begin_addr h) m;
            m2 = write_u32 (q_size_addr h) (read_u32 (q_size_addr h) m1 - 1) m1
        in (True, m2))"

section \<open>persistent\_vector\<close>

text \<open>
  The vector's header has the fields \<^verbatim>\<open>signature\<close> and \<^verbatim>\<open>size\<close> at offsets
  0 and 4; \<^verbatim>\<open>data()\<close> starts at offset 8.
\<close>

record vector_handle =
  capacity_v :: "32 word"
  storage_v :: nat

definition v_SIGNATURE :: "32 word" where
  "v_SIGNATURE = 0xa2bedef9"

definition v_signature_addr :: "vector_handle \<Rightarrow> nat" where
  "v_signature_addr h = storage_v h"

definition v_size_addr :: "vector_handle \<Rightarrow> nat" where
  "v_size_addr h = storage_v h + 4"

definition v_data :: "vector_handle \<Rightarrow> nat" where
  "v_data h = storage_v h + 4 + 4"

definition v_signature :: "vector_handle \<Rightarrow> eeprom \<Rightarrow> 32 word" where
  "v_signature h m = read_u32 (v_signature_addr h) m"

definition persistent_vector :: "nat \<Rightarrow> 32 word \<Rightarrow> eeprom \<Rightarrow> vector_handle \<times> eeprom" where
  "persistent_vector offset capacity m =
     (let h = \<lparr> capacity_v = capacity, storage_v = offset \<rparr> in
      if v_signature h m \<noteq> v_SIGNATURE then
        let m1 = write_u32 (v_signature_addr h) v_SIGNATURE m;
            m2 = write_u32 (v_size_addr h) 0 m1
        in (h, m2)
      else (h, m))"

definition v_size :: "vector_handle \<Rightarrow> eeprom \<Rightarrow> 32 word" where
  "v_size h m = read_u32 (v_size_addr h) m"

definition v_capacity :: "vector_handle \<Rightarrow> 32 word" where
  "v_capacity h = capacity_v h"

definition v_empty :: "vector_handle \<Rightarrow> eeprom \<Rightarrow> bool" where
  "v_empty h m \<longleftrightarrow> v_size h m = 0"

definition v_full :: "vector_handle \<Rightarrow> eeprom \<Rightarrow> bool" where
  "v_full h m \<longleftrightarrow> v_size h m = v_capacity h"

text \<open>\<^verbatim>\<open>operator[]\<close>.\<close>

definition v_at :: "'a value_type \<Rightarrow> vector_handle \<Rightarrow> 32 word \<Rightarrow> eeprom \<Rightarrow> 'a" where
  "v_at T h pos m = read_slot T (v_data h) (unat pos) m"

definition v_push_back :: "'a value_type \<Rightarrow> vector_handle \<Rightarrow> 'a \<Rightarrow> eeprom \<Rightarrow> bool \<times> eeprom" where
  "v_push_back T h v m =
     (if v_full h m then (False, m)
      else
        let m1 = write_slot T (v_data h) (unat (v_size h m)) v m;
            m2 = write_u32 (v_size_addr h) (read_u32 (v_size_addr h) m1 + 1) m1
        in (True, m2))"

definition v_pop_back :: "vector_handle \<Rightarrow> eeprom \<Rightarrow> bool \<times> eeprom" where
  "v_pop_back h m =
     (if v_empty h m then (False, m)
      else (True, write_u32 (v_size_addr h) (read_u32 (v_size_addr h) m - 1) m))"

section \<open>Stores outside the region\<close>

text \<open>
  A pointer of the target has 32 bits, so the address of \<^verbatim>\<open>data()[i]\<close> is
  taken modulo \<open>2 ^ 32\<close>, byte by byte. For a slot of the region this changes
  nothing. For an index beyond the capacity the address can come back to the header:
  with four-byte elements, \<^verbatim>\<open>data()[0xffffffff]\<close> is the four bytes just before
  \<^verbatim>\<open>data()\<close>, the \<open>size\<close> field. \<open>q_push32\<close> and \<open>v_push_back32\<close>
  are \<^verbatim>\<open>push\<close> and \<^verbatim>\<open>push_back\<close> with this store; \<open>slot_overlaps b n a\<close>
  says that one of the \<open>n\<close> bytes stored from address \<open>b\<close> on lands in the
  four-byte field at \<open>a\<close>.
\<close>

definition wrap32 :: "nat \<Rightarrow> nat" where
  "wrap32 a = a mod 2 ^ 32"

fun write_bytes32 :: "nat \<Rightarrow> byte list \<Rightarrow> eeprom \<Rightarrow> eeprom" where
  "write_bytes32 a [] m = m"
| "write_bytes32 a (b # bs) m = write_bytes32 (a + 1) bs (m(wrap32 a := b))"

definition write_slot32 :: "'a value_type \<Rightarrow> nat \<Rightarrow> nat \<Rightarrow> 'a \<Rightarrow> eeprom \<Rightarrow> eeprom" where
  "write_slot32 T d i v m = write_bytes32 (d + i * sizeof T) (store T v) m"

definition q_push32 :: "'a value_type \<Rightarrow> queue_handle \<Rightarrow> 'a \<Rightarrow> eeprom \<Rightarrow> bool \<times> eeprom" where
  "q_push32 T h v m =
     (if q_full h m then (False, m)
      else
        let m1 = write_slot32 T (q_data h) (unat (q_end h m)) v m;
            m2 = q_increment h (q_end_addr h) m1;
            m3 = write_u32 (q_size_addr h) (read_u32 (q_size_addr h) m2 + 1) m2
        in (True, m3))"

definition v_push_back32 :: "'a value_type \<Rightarrow> vector_handle \<Rightarrow> 'a \<Rightarrow> eeprom \<Rightarrow> bool \<times> eeprom" where
  "v_push_back32 T h v m =
     (if v_full h m then (False, m)
      else
        let m1 = write_slot32 T (v_data h) (unat (v_size h m)) v m;
            m2 = write_u32 (v_size_addr h) (read_u32 (v_size_addr h) m1 + 1) m1
        in (True, m2))"


section \<open>Clients\<close>

text \<open>
  Sequences of calls, as a caller of the containers makes them. A caller looks at
  \<^verbatim>\<open>front()\<close> only when \<^verbatim>\<open>empty()\<close> is false: the source leaves the
  other case undefined.
\<close>

datatype 'a q_op = Push 'a | Pop

datatype 'a q_event = Pushed bool | Popped "'a option" bool

definition q_step :: "'a value_type \<Rightarrow> queue_handle \<Rightarrow> 'a q_op \<Rightarrow> eeprom \<Rightarrow> 'a q_event \<times> eeprom" where
  "q_step T h c m =
     (case c of
        Push v \<Rightarrow> (let (r, m1) = q_push T h v m in (Pushed r, m1))
      | Pop \<Rightarrow>
          (let f = (if q_empty h m then None else Some (q_front T h m));
               (r, m1) = q_pop h m
           in (Popped f r, m1)))"

fun q_run :: "'a value_type \<Rightarrow> queue_handle \<Rightarrow> 'a q_op list \<Rightarrow> eeprom \<Rightarrow> 'a q_event list \<times> eeprom" where
  "q_run T h [] m = ([], m)"
| "q_run T h (c # cs) m =
     (let (e, m1) = q_step T h c m; (es, m2) = q_run T h cs m1 in (e # es, m2))"

fun q_push_all :: "'a value_type \<Rightarrow> queue_handle \<Rightarrow> 'a list \<Rightarrow> eeprom \<Rightarrow> bool list \<times> eeprom" where
  "q_push_all T h [] m = ([], m)"
| "q_push_all T h (v # vs) m =
     (let (r, m1) = q_push T h v m; (rs, m2) = q_push_all T h vs m1 in (r # rs, m2))"

text \<open>\<^verbatim>\<open>k\<close> times: read \<^verbatim>\<open>front()\<close>, then \<^verbatim>\<open>pop()\<close>.\<close>

fun q_drain :: "'a value_type \<Rightarrow> queue_handle \<Rightarrow> nat \<Rightarrow> eeprom \<Rightarrow> ('a \<times> bool) list \<times> eeprom" where
  "q_drain T h 0 m = ([], m)"
| "q_drain T h (Suc k) m =
     (let f = q_front T h m; (r, m1) = q_pop h m; (fs, m2) = q_drain T h k m1
      in ((f, r) # fs, m2))"

fun v_push_back_all :: "'a value_type \<Rightarrow> vector_handle \<Rightarrow> 'a list \<Rightarrow> eeprom \<Rightarrow> bool list \<times> eeprom" where
  "v_push_back_all T h [] m = ([], m)"
| "v_push_back_all T h (v # vs) m =
     (let (r, m1) = v_push_back T h v m; (rs, m2) = v_push_back_all T h vs m1
      in (r # rs, m2))"

datatype 'a v_op = Push_back 'a | Pop_back

definition v_step :: "'a value_type \<Rightarrow> vector_handle \<Rightarrow> 'a v_op \<Rightarrow> eeprom \<Rightarrow> bool \<times> eeprom" where
  "v_step T h c m =
     (case c of Push_back v \<Rightarrow> v_push_back T h v m | Pop_back \<Rightarrow> v_pop_back h m)"

fun v_run :: "'a value_type \<Rightarrow> vector_handle \<Rightarrow> 'a v_op list \<Rightarrow> eeprom \<Rightarrow> bool list \<times> eeprom" where
  "v_run T h [] m = ([], m)"
| "v_run T h (c # cs) m =
     (let (r, m1) = v_step T h c m; (rs, m2) = v_run T h cs m1 in (r # rs, m2))"

section \<open>The specification's view\<close>

text \<open>
  The invariant of the queue header, in the words of the specification:
  size at most capacity, begin and end below capacity, and end equal to begin plus
  size modulo capacity.
\<close>

definition q_invariant :: "queue_handle \<Rightarrow> eeprom \<Rightarrow> bool" where
  "q_invariant h m \<longleftrightarrow>
     unat (q_size h m) \<le> unat (q_capacity h) \<and>
     unat (q_begin h m) < unat (q_capacity h) \<and>
     unat (q_end h m) < unat (q_capacity h) \<and>
     unat (q_end h m) = (unat (q_begin h m) + unat (q_size h m)) mod unat (q_capacity h)"

text \<open>
  The occupied slots, oldest first: the circular range that starts at begin and has
  length size.
\<close>

definition q_contents :: "'a value_type \<Rightarrow> queue_handle \<Rightarrow> eeprom \<Rightarrow> 'a list" where
  "q_contents T h m =
     map (\<lambda>i. read_slot T (q_data h) ((unat (q_begin h m) + i) mod unat (q_capacity h)) m)
       [0 ..< unat (q_size h m)]"

text \<open>The vector's occupied slots are the indices below size.\<close>

definition v_contents :: "'a value_type \<Rightarrow> vector_handle \<Rightarrow> eeprom \<Rightarrow> 'a list" where
  "v_contents T h m = map (\<lambda>i. read_slot T (v_data h) i m) [0 ..< unat (v_size h m)]"

text \<open>
  The bounded first-in first-out queue of the specification, on a list: push appends
  unless the list has reached the capacity, pop drops the head unless the list is
  empty, front is the head.
\<close>

definition fifo_step :: "nat \<Rightarrow> 'a q_op \<Rightarrow> 'a list \<Rightarrow> 'a q_event \<times> 'a list" where
  "fifo_step c x xs =
     (case x of
        Push v \<Rightarrow> (if length xs = c then (Pushed False, xs) else (Pushed True, xs @ [v]))
      | Pop \<Rightarrow> (case xs of [] \<Rightarrow> (Popped None False, []) | y # ys \<Rightarrow> (Popped (Some y) True, ys)))"

fun fifo_run :: "nat \<Rightarrow> 'a q_op list \<Rightarrow> 'a list \<Rightarrow> 'a q_event list \<times> 'a list" where
  "fifo_run c [] xs = ([], xs)"
| "fifo_run c (x # cs) xs =
     (let (e, ys) = fifo_step c x xs; (es, zs) = fifo_run c cs ys in (e # es, zs))"

section \<open>Concrete states\<close>

text \<open>
  A queue of capacity 4 mounted at offset 0 and a vector of capacity 4 mounted at
  offset 32 of an erased buffer, and the states of the specification's scenario:
  the queue after three pushes, after the fourth, after one pop, and after the push
  of the value 5. \<open>small_q\<close> and \<open>small_v\<close> are handles of capacity 2 at
  the same offsets. \<open>corrupt_q\<close> is a queue of capacity 2 whose header was
  overwritten with \<open>size = 5\<close> and \<open>end = 0xffffffff\<close>, \<open>corrupt_v\<close> a
  vector of capacity 4 whose header was overwritten with \<open>size = 0xffffffff\<close>.
\<close>

definition demo_q :: queue_handle where
  "demo_q = fst (persistent_queue 0 4 erased)"

definition demo_q_fresh :: eeprom where
  "demo_q_fresh = snd (persistent_queue 0 4 erased)"

definition demo_v :: vector_handle where
  "demo_v = fst (persistent_vector 32 4 erased)"

definition demo_v_fresh :: eeprom where
  "demo_v_fresh = snd (persistent_vector 32 4 erased)"






definition scenario_ops :: "32 word q_op list" where
  "scenario_ops = [Push 1, Push 2, Push 3, Push 4, Push 5, Pop, Push 5, Pop, Pop, Pop, Pop]"

definition scenario_three :: eeprom where
  "scenario_three = snd (q_push_all unsigned_type demo_q [1, 2, 3] demo_q_fresh)"

definition scenario_full :: eeprom where
  "scenario_full = snd (q_push unsigned_type demo_q 4 scenario_three)"

definition scenario_popped :: eeprom where
  "scenario_popped = snd (q_pop demo_q scenario_full)"

definition scenario_wrapped :: eeprom where
  "scenario_wrapped = snd (q_push unsigned_type demo_q 5 scenario_popped)"

section \<open>Reading and writing the buffer\<close>

lemma read_write_u32_same: "read_u32 a (write_u32 a w m) = w"
proof (rule bit_word_eqI)
  fix n :: nat
  assume n: "n < LENGTH(32)"
  consider "n < 8" | "8 \<le> n" "n < 16" | "16 \<le> n" "n < 24" | "24 \<le> n"
    by linarith
  then show "bit (read_u32 a (write_u32 a w m)) n = bit w n"
  proof cases
    case 1
    then show ?thesis using n by (auto simp add: read_u32_def write_u32_def bit_simps)
  next
    case 2
    then show ?thesis using n by (auto simp add: read_u32_def write_u32_def bit_simps)
  next
    case 3
    then show ?thesis using n by (auto simp add: read_u32_def write_u32_def bit_simps)
  next
    case 4
    then show ?thesis using n by (auto simp add: read_u32_def write_u32_def bit_simps)
  qed
qed

lemma read_write_u32_other:
  "a + 4 \<le> b \<or> b + 4 \<le> a \<Longrightarrow> read_u32 a (write_u32 b w m) = read_u32 a m"
  unfolding read_u32_def write_u32_def by auto

lemma read_u32_write_bytes:
  "a + 4 \<le> b \<or> b + length bs \<le> a \<Longrightarrow> read_u32 a (write_bytes b bs m) = read_u32 a m"
  unfolding read_u32_def write_bytes_def by auto

lemma read_bytes_write_bytes_same:
  "read_bytes a (length bs) (write_bytes a bs m) = bs"
  unfolding read_bytes_def write_bytes_def
  by (rule nth_equalityI) auto

lemma read_bytes_write_bytes_other:
  "a + n \<le> b \<or> b + length bs \<le> a \<Longrightarrow>
   read_bytes a n (write_bytes b bs m) = read_bytes a n m"
  unfolding read_bytes_def write_bytes_def by auto

lemma read_bytes_write_u32:
  "a + n \<le> b \<or> b + 4 \<le> a \<Longrightarrow> read_bytes a n (write_u32 b w m) = read_bytes a n m"
  unfolding read_bytes_def write_u32_def by auto

lemma read_slot_write_u32:
  "b + 4 \<le> d \<Longrightarrow> read_slot T d i (write_u32 b w m) = read_slot T d i m"
  unfolding read_slot_def by (simp add: read_bytes_write_u32)

lemma read_u32_write_slot:
  "a + 4 \<le> d \<Longrightarrow> read_u32 a (write_slot T d i v m) = read_u32 a m"
  unfolding write_slot_def by (simp add: read_u32_write_bytes)

lemma read_slot_write_slot_same:
  "trivially_copyable T \<Longrightarrow> read_slot T d i (write_slot T d i v m) = v"
  unfolding read_slot_def write_slot_def trivially_copyable_def
  by (metis read_bytes_write_bytes_same)

lemma slots_disjoint:
  fixes i j s :: nat
  assumes "i \<noteq> j"
  shows "d + j * s + s \<le> d + i * s \<or> d + i * s + s \<le> d + j * s"
proof (cases "i < j")
  case True
  then have "Suc i \<le> j" by simp
  then have "Suc i * s \<le> j * s" by (rule mult_le_mono1)
  then show ?thesis by simp
next
  case False
  with assms have "Suc j \<le> i" by simp
  then have "Suc j * s \<le> i * s" by (rule mult_le_mono1)
  then show ?thesis by simp
qed

lemma read_slot_write_slot_other:
  assumes "trivially_copyable T" and "i \<noteq> j"
  shows "read_slot T d j (write_slot T d i v m) = read_slot T d j m"
proof -
  have len: "length (store T v) = sizeof T"
    using assms(1) by (simp add: trivially_copyable_def)
  have "d + j * sizeof T + sizeof T \<le> d + i * sizeof T
        \<or> d + i * sizeof T + length (store T v) \<le> d + j * sizeof T"
    using slots_disjoint [OF assms(2), of d "sizeof T"] len by simp
  then show ?thesis
    unfolding read_slot_def write_slot_def
    by (rule read_bytes_write_bytes_other [THEN arg_cong])
qed

lemma unsigned_type_copyable: "trivially_copyable unsigned_type"
proof -
  have "read_u32 0 (\<lambda>i. [ucast w, ucast (drop_bit 8 w), ucast (drop_bit 16 w),
                       ucast (drop_bit 24 w)] ! i) = w" for w :: "32 word"
    using read_write_u32_same [of 0 w "\<lambda>_. 0"]
    by (simp add: read_u32_def write_u32_def)
  then show ?thesis
    by (simp add: trivially_copyable_def unsigned_type_def)
qed


subsection \<open>What the queue's calls do to the header fields and the slots\<close>

lemmas q_addr_defs =
  q_signature_addr_def q_begin_addr_def q_end_addr_def q_size_addr_def q_data_def

lemmas q_field_defs = q_signature_def q_begin_def q_end_def q_size_def

lemma q_increment_same:
  "read_u32 idx (q_increment h idx m) =
     (if read_u32 idx m + 1 = capacity_q h then 0 else read_u32 idx m + 1)"
  by (simp add: q_increment_def Let_def read_write_u32_same)

lemma q_increment_other:
  "a + 4 \<le> idx \<or> idx + 4 \<le> a \<Longrightarrow> read_u32 a (q_increment h idx m) = read_u32 a m"
  by (simp add: q_increment_def Let_def read_write_u32_other)

lemma q_increment_slot:
  "idx + 4 \<le> d \<Longrightarrow> read_slot T d i (q_increment h idx m) = read_slot T d i m"
  by (simp add: q_increment_def Let_def read_slot_write_u32)

lemma q_push_full: "q_full h m \<Longrightarrow> q_push T h v m = (False, m)"
  by (simp add: q_push_def)

lemma q_push_result: "\<not> q_full h m \<Longrightarrow> fst (q_push T h v m) = True"
  by (simp add: q_push_def Let_def)

lemma q_push_signature:
  "q_signature h (snd (q_push T h v m)) = q_signature h m"
  by (simp add: q_push_def Let_def q_field_defs q_addr_defs read_write_u32_other
      q_increment_other read_u32_write_slot)

lemma q_push_begin:
  "q_begin h (snd (q_push T h v m)) = q_begin h m"
  by (simp add: q_push_def Let_def q_field_defs q_addr_defs read_write_u32_other
      q_increment_other read_u32_write_slot)

lemma q_push_end:
  "\<not> q_full h m \<Longrightarrow>
   q_end h (snd (q_push T h v m)) =
     (if q_end h m + 1 = q_capacity h then 0 else q_end h m + 1)"
  by (simp add: q_push_def Let_def q_field_defs q_addr_defs read_write_u32_other
      q_increment_same read_u32_write_slot q_capacity_def)

lemma q_push_size:
  "\<not> q_full h m \<Longrightarrow> q_size h (snd (q_push T h v m)) = q_size h m + 1"
  by (simp add: q_push_def Let_def q_field_defs q_addr_defs read_write_u32_same
      q_increment_other read_u32_write_slot)

lemma q_push_slot:
  "trivially_copyable T \<Longrightarrow> \<not> q_full h m \<Longrightarrow>
   read_slot T (q_data h) j (snd (q_push T h v m)) =
     (if j = unat (q_end h m) then v else read_slot T (q_data h) j m)"
  by (simp add: q_push_def Let_def q_addr_defs read_slot_write_u32 q_increment_slot
      read_slot_write_slot_same read_slot_write_slot_other)

lemma q_pop_empty: "q_empty h m \<Longrightarrow> q_pop h m = (False, m)"
  by (simp add: q_pop_def)

lemma q_pop_result: "\<not> q_empty h m \<Longrightarrow> fst (q_pop h m) = True"
  by (simp add: q_pop_def Let_def)

lemma q_pop_signature: "q_signature h (snd (q_pop h m)) = q_signature h m"
  by (simp add: q_pop_def Let_def q_field_defs q_addr_defs read_write_u32_other
      q_increment_other)

lemma q_pop_end: "q_end h (snd (q_pop h m)) = q_end h m"
  by (simp add: q_pop_def Let_def q_field_defs q_addr_defs read_write_u32_other
      q_increment_other)

lemma q_pop_begin:
  "\<not> q_empty h m \<Longrightarrow>
   q_begin h (snd (q_pop h m)) =
     (if q_begin h m + 1 = q_capacity h then 0 else q_begin h m + 1)"
  by (simp add: q_pop_def Let_def q_field_defs q_addr_defs read_write_u32_other
      q_increment_same q_capacity_def)

lemma q_pop_size:
  "\<not> q_empty h m \<Longrightarrow> q_size h (snd (q_pop h m)) = q_size h m - 1"
  by (simp add: q_pop_def Let_def q_field_defs q_addr_defs read_write_u32_same
      q_increment_other)

lemma q_pop_slot:
  "read_slot T (q_data h) j (snd (q_pop h m)) = read_slot T (q_data h) j m"
  by (simp add: q_pop_def Let_def q_addr_defs read_slot_write_u32 q_increment_slot)


subsection \<open>Index arithmetic\<close>

lemma unat_succ_below:
  fixes x c :: "32 word"
  assumes "unat x < unat c"
  shows "unat (x + 1) = unat x + 1"
proof -
  have "unat c < 2 ^ LENGTH(32)" by (rule unsigned_less)
  with assms have "unat x + unat (1 :: 32 word) < 2 ^ LENGTH(32)" by simp
  then have "unat (x + 1) = unat x + unat (1 :: 32 word)"
    by (simp only: unat_add_lem [THEN iffD1])
  then show ?thesis by simp
qed

lemma unat_wrap_step:
  fixes x c :: "32 word"
  assumes "unat x < unat c"
  shows "unat (if x + 1 = c then 0 else x + 1) = (unat x + 1) mod unat c"
proof (cases "x + 1 = c")
  case True
  then have "unat x + 1 = unat c" using unat_succ_below [OF assms] by simp
  with True show ?thesis by simp
next
  case False
  then have "unat (x + 1) \<noteq> unat c" by (simp add: word_unat_eq_iff)
  then have "unat x + 1 < unat c" using assms unat_succ_below [OF assms] by simp
  with False show ?thesis by (simp add: unat_succ_below [OF assms])
qed

lemma unat_pred_nonzero:
  fixes x :: "32 word"
  assumes "x \<noteq> 0"
  shows "unat (x - 1) = unat x - 1"
  using assms by (simp add: unat_minus_one)

lemma circular_distinct:
  fixes b i s c :: nat
  assumes "i < s" and "s < c"
  shows "(b + i) mod c \<noteq> (b + s) mod c"
proof
  assume "(b + i) mod c = (b + s) mod c"
  then have "(b + s) mod c = (b + i) mod c" by simp
  moreover have "b + i \<le> b + s" using assms by simp
  ultimately have "c dvd (b + s) - (b + i)"
    by (simp only: mod_eq_dvd_iff_nat)
  then have "c dvd s - i" by simp
  moreover have "0 < s - i" and "s - i < c" using assms by simp_all
  ultimately show False by (simp add: nat_dvd_not_less)
qed

subsection \<open>Invariant and contents under push and pop\<close>

lemma q_invariant_push:
  assumes inv: "q_invariant h m" and nf: "\<not> q_full h m"
  shows "q_invariant h (snd (q_push T h v m))"
proof -
  let ?c = "unat (q_capacity h)"
  from inv have sz: "unat (q_size h m) \<le> ?c" and b: "unat (q_begin h m) < ?c"
    and e: "unat (q_end h m) < ?c"
    and eq: "unat (q_end h m) = (unat (q_begin h m) + unat (q_size h m)) mod ?c"
    by (simp_all add: q_invariant_def)
  from nf have "unat (q_size h m) \<noteq> ?c"
    by (simp add: q_full_def word_unat_eq_iff)
  with sz have lt: "unat (q_size h m) < ?c" by simp
  have s': "unat (q_size h (snd (q_push T h v m))) = unat (q_size h m) + 1"
    by (simp add: q_push_size [OF nf] unat_succ_below [OF lt])
  have e': "unat (q_end h (snd (q_push T h v m))) = (unat (q_end h m) + 1) mod ?c"
    by (simp only: q_push_end [OF nf] unat_wrap_step [OF e])
  have "(unat (q_end h m) + 1) mod ?c = (unat (q_begin h m) + (unat (q_size h m) + 1)) mod ?c"
    by (simp add: eq mod_Suc_eq)
  with e' s' lt b show ?thesis
    by (simp add: q_invariant_def q_push_begin)
qed

lemma q_contents_push:
  assumes tc: "trivially_copyable T" and inv: "q_invariant h m" and nf: "\<not> q_full h m"
  shows "q_contents T h (snd (q_push T h v m)) = q_contents T h m @ [v]"
proof -
  let ?c = "unat (q_capacity h)"
  let ?b = "unat (q_begin h m)"
  let ?s = "unat (q_size h m)"
  from inv have sz: "?s \<le> ?c" and eq: "unat (q_end h m) = (?b + ?s) mod ?c"
    by (simp_all add: q_invariant_def)
  from nf have "?s \<noteq> ?c" by (simp add: q_full_def word_unat_eq_iff)
  with sz have lt: "?s < ?c" by simp
  have s': "unat (q_size h (snd (q_push T h v m))) = Suc ?s"
    by (simp add: q_push_size [OF nf] unat_succ_below [OF lt])
  have old: "read_slot T (q_data h) ((?b + i) mod ?c) (snd (q_push T h v m))
             = read_slot T (q_data h) ((?b + i) mod ?c) m" if "i < ?s" for i
    using circular_distinct [OF that lt, of ?b]
    by (simp add: q_push_slot [OF tc nf] eq)
  have new: "read_slot T (q_data h) ((?b + ?s) mod ?c) (snd (q_push T h v m)) = v"
    by (simp add: q_push_slot [OF tc nf] eq)
  show ?thesis
    by (simp add: q_contents_def s' q_push_begin old new)
qed

lemma q_invariant_pop:
  assumes inv: "q_invariant h m" and ne: "\<not> q_empty h m"
  shows "q_invariant h (snd (q_pop h m))"
proof -
  let ?c = "unat (q_capacity h)"
  from inv have sz: "unat (q_size h m) \<le> ?c" and b: "unat (q_begin h m) < ?c"
    and e: "unat (q_end h m) < ?c"
    and eq: "unat (q_end h m) = (unat (q_begin h m) + unat (q_size h m)) mod ?c"
    by (simp_all add: q_invariant_def)
  from ne have nz: "q_size h m \<noteq> 0" by (simp add: q_empty_def)
  then have pos: "0 < unat (q_size h m)" by (simp add: unat_gt_0)
  have s': "unat (q_size h (snd (q_pop h m))) = unat (q_size h m) - 1"
    by (simp add: q_pop_size [OF ne] unat_pred_nonzero [OF nz])
  have b': "unat (q_begin h (snd (q_pop h m))) = (unat (q_begin h m) + 1) mod ?c"
    by (simp only: q_pop_begin [OF ne] unat_wrap_step [OF b])
  have "((unat (q_begin h m) + 1) mod ?c + (unat (q_size h m) - 1)) mod ?c
        = (unat (q_begin h m) + 1 + (unat (q_size h m) - 1)) mod ?c"
    by (rule mod_add_left_eq)
  also have "\<dots> = (unat (q_begin h m) + unat (q_size h m)) mod ?c"
    using pos by simp
  finally have "unat (q_end h m)
      = ((unat (q_begin h m) + 1) mod ?c + (unat (q_size h m) - 1)) mod ?c"
    using eq by simp
  with b' s' sz b e show ?thesis
    by (simp add: q_invariant_def q_pop_end)
qed

lemma q_contents_pop:
  assumes inv: "q_invariant h m" and ne: "\<not> q_empty h m"
  shows "q_contents T h (snd (q_pop h m)) = tl (q_contents T h m)"
proof -
  let ?c = "unat (q_capacity h)"
  let ?b = "unat (q_begin h m)"
  let ?s = "unat (q_size h m)"
  let ?f = "\<lambda>i. read_slot T (q_data h) ((?b + i) mod ?c) m"
  from inv have b: "?b < ?c" by (simp add: q_invariant_def)
  from ne have nz: "q_size h m \<noteq> 0" by (simp add: q_empty_def)
  then have pos: "0 < ?s" by (simp add: unat_gt_0)
  have s': "unat (q_size h (snd (q_pop h m))) = ?s - 1"
    by (simp add: q_pop_size [OF ne] unat_pred_nonzero [OF nz])
  have b': "unat (q_begin h (snd (q_pop h m))) = (?b + 1) mod ?c"
    by (simp only: q_pop_begin [OF ne] unat_wrap_step [OF b])
  have shift: "((?b + 1) mod ?c + i) mod ?c = (?b + Suc i) mod ?c" for i
    by (simp add: mod_add_left_eq)
  have "q_contents T h (snd (q_pop h m)) = map (\<lambda>i. ?f (Suc i)) [0 ..< ?s - 1]"
    by (simp add: q_contents_def s' b' q_pop_slot shift del: One_nat_def)
  also have "\<dots> = map ?f (map Suc [0 ..< ?s - 1])" by (simp add: comp_def)
  also have "map Suc [0 ..< ?s - 1] = [1 ..< ?s]"
    using pos by (simp add: map_Suc_upt)
  also have "map ?f [1 ..< ?s] = tl (map ?f [0 ..< ?s])"
    using pos by (simp add: upt_conv_Cons map_tl)
  finally show ?thesis by (simp add: q_contents_def)
qed

lemma q_front_hd:
  assumes inv: "q_invariant h m" and ne: "\<not> q_empty h m"
  shows "q_front T h m = hd (q_contents T h m)"
proof -
  from inv have b: "unat (q_begin h m) < unat (q_capacity h)" by (simp add: q_invariant_def)
  from ne have "q_size h m \<noteq> 0" by (simp add: q_empty_def)
  then have pos: "0 < unat (q_size h m)" by (simp add: unat_gt_0)
  then show ?thesis
    using b by (simp add: q_front_def q_contents_def upt_conv_Cons)
qed

lemma q_contents_length: "length (q_contents T h m) = unat (q_size h m)"
  by (simp add: q_contents_def)

lemma q_full_length:
  "length (q_contents T h m) = unat (q_capacity h) \<longleftrightarrow> q_full h m"
  by (simp add: q_full_def q_contents_def word_unat_eq_iff)

lemma q_empty_contents: "q_contents T h m = [] \<longleftrightarrow> q_empty h m"
  by (simp add: q_empty_def q_contents_def unat_eq_0)

section \<open>The queue as a first-in first-out list\<close>

lemma q_step_refines:
  assumes tc: "trivially_copyable T" and inv: "q_invariant h m"
  shows "fst (q_step T h c m) = fst (fifo_step (unat (q_capacity h)) c (q_contents T h m))"
    and "q_invariant h (snd (q_step T h c m))"
    and "q_contents T h (snd (q_step T h c m))
           = snd (fifo_step (unat (q_capacity h)) c (q_contents T h m))"
proof -
  let ?goal = "fst (q_step T h c m) = fst (fifo_step (unat (q_capacity h)) c (q_contents T h m))
    \<and> q_invariant h (snd (q_step T h c m))
    \<and> q_contents T h (snd (q_step T h c m))
           = snd (fifo_step (unat (q_capacity h)) c (q_contents T h m))"
  have ?goal
  proof (cases c)
    case (Push v)
    show ?thesis
    proof (cases "q_full h m")
      case True
      then have "length (q_contents T h m) = unat (q_capacity h)"
        by (simp add: q_full_length)
      with True inv Push show ?thesis
        by (simp add: q_step_def fifo_step_def q_push_full)
    next
      case False
      then have "length (q_contents T h m) \<noteq> unat (q_capacity h)"
        by (simp add: q_full_length)
      with False Push q_push_result [OF False, of T v]
        q_invariant_push [OF inv False, of T v] q_contents_push [OF tc inv False, of v]
      show ?thesis
        by (simp add: q_step_def fifo_step_def split_beta)
    qed
  next
    case Pop
    show ?thesis
    proof (cases "q_empty h m")
      case True
      then have "q_contents T h m = []" by (simp add: q_empty_contents)
      with True inv Pop show ?thesis
        by (simp add: q_step_def fifo_step_def q_pop_empty)
    next
      case False
      then obtain y ys where ys: "q_contents T h m = y # ys"
        by (auto simp add: q_empty_contents [of T h m, symmetric] neq_Nil_conv)
      with False Pop q_pop_result [OF False] q_invariant_pop [OF inv False]
        q_contents_pop [OF inv False, of T] q_front_hd [OF inv False, of T]
      show ?thesis
        by (simp add: q_step_def fifo_step_def split_beta)
    qed
  qed
  then show "fst (q_step T h c m) = fst (fifo_step (unat (q_capacity h)) c (q_contents T h m))"
    and "q_invariant h (snd (q_step T h c m))"
    and "q_contents T h (snd (q_step T h c m))
           = snd (fifo_step (unat (q_capacity h)) c (q_contents T h m))"
    by simp_all
qed

lemma q_run_refines:
  assumes tc: "trivially_copyable T"
  shows "q_invariant h m \<Longrightarrow>
    fst (q_run T h cs m) = fst (fifo_run (unat (q_capacity h)) cs (q_contents T h m))
    \<and> q_invariant h (snd (q_run T h cs m))
    \<and> q_contents T h (snd (q_run T h cs m))
         = snd (fifo_run (unat (q_capacity h)) cs (q_contents T h m))"
proof (induction cs arbitrary: m)
  case Nil
  then show ?case by simp
next
  case (Cons c cs)
  note step = q_step_refines [OF tc Cons.prems, of c]
  from Cons.IH [OF step(2)] step show ?case
    by (simp add: split_beta)
qed

lemma q_step_invariant:
  assumes inv: "q_invariant h m"
  shows "q_invariant h (snd (q_step T h c m))"
proof (cases c)
  case (Push v)
  show ?thesis
  proof (cases "q_full h m")
    case True
    with inv Push show ?thesis by (simp add: q_step_def q_push_full)
  next
    case False
    with Push q_invariant_push [OF inv False, of T v] show ?thesis
      by (simp add: q_step_def split_beta)
  qed
next
  case Pop
  show ?thesis
  proof (cases "q_empty h m")
    case True
    with inv Pop show ?thesis by (simp add: q_step_def q_pop_empty)
  next
    case False
    with Pop q_invariant_pop [OF inv False] show ?thesis
      by (simp add: q_step_def split_beta)
  qed
qed

lemma q_run_invariant:
  "q_invariant h m \<Longrightarrow> q_invariant h (snd (q_run T h cs m))"
proof (induction cs arbitrary: m)
  case Nil
  then show ?case by simp
next
  case (Cons c cs)
  from Cons.IH [OF q_step_invariant [OF Cons.prems, of T c]] show ?case
    by (simp add: split_beta)
qed

lemma q_push_all_fifo:
  assumes tc: "trivially_copyable T"
  shows "q_invariant h m \<Longrightarrow> length (q_contents T h m) + length vs \<le> unat (q_capacity h) \<Longrightarrow>
    fst (q_push_all T h vs m) = replicate (length vs) True
    \<and> q_invariant h (snd (q_push_all T h vs m))
    \<and> q_contents T h (snd (q_push_all T h vs m)) = q_contents T h m @ vs"
proof (induction vs arbitrary: m)
  case Nil
  then show ?case by simp
next
  case (Cons v vs)
  from Cons.prems(2) have "length (q_contents T h m) \<noteq> unat (q_capacity h)" by simp
  then have nf: "\<not> q_full h m" by (simp add: q_full_length [of T])
  note inv' = q_invariant_push [OF Cons.prems(1) nf, of T v]
  note cont' = q_contents_push [OF tc Cons.prems(1) nf, of v]
  have "length (q_contents T h (snd (q_push T h v m))) + length vs \<le> unat (q_capacity h)"
    using Cons.prems(2) by (simp add: cont')
  from Cons.IH [OF inv' this] q_push_result [OF nf, of T v] show ?case
    by (simp add: split_beta cont')
qed

lemma q_drain_fifo:
  "q_invariant h m \<Longrightarrow> k \<le> length (q_contents T h m) \<Longrightarrow>
    fst (q_drain T h k m) = map (\<lambda>x. (x, True)) (take k (q_contents T h m))
    \<and> q_invariant h (snd (q_drain T h k m))
    \<and> q_contents T h (snd (q_drain T h k m)) = drop k (q_contents T h m)"
proof (induction k arbitrary: m)
  case 0
  then show ?case by simp
next
  case (Suc k)
  from Suc.prems(2) have "q_contents T h m \<noteq> []" by auto
  then have ne: "\<not> q_empty h m" by (simp add: q_empty_contents)
  note inv' = q_invariant_pop [OF Suc.prems(1) ne]
  note cont' = q_contents_pop [OF Suc.prems(1) ne, of T]
  have "k \<le> length (q_contents T h (snd (q_pop h m)))"
    using Suc.prems(2) by (simp add: cont')
  from Suc.IH [OF inv' this] q_pop_result [OF ne] q_front_hd [OF Suc.prems(1) ne, of T]
    \<open>q_contents T h m \<noteq> []\<close>
  show ?case
    by (simp add: split_beta Let_def cont' take_Suc drop_Suc)
qed

section \<open>The vector as a list\<close>

lemmas v_addr_defs = v_signature_addr_def v_size_addr_def v_data_def


lemma v_push_back_result: "\<not> v_full h m \<Longrightarrow> fst (v_push_back T h v m) = True"
  by (simp add: v_push_back_def Let_def)

lemma v_push_back_signature:
  "v_signature h (snd (v_push_back T h v m)) = v_signature h m"
  by (simp add: v_push_back_def Let_def v_signature_def v_addr_defs read_write_u32_other
      read_u32_write_slot)

lemma v_push_back_size:
  "\<not> v_full h m \<Longrightarrow> v_size h (snd (v_push_back T h v m)) = v_size h m + 1"
  by (simp add: v_push_back_def Let_def v_size_def v_addr_defs read_write_u32_same
      read_u32_write_slot)

lemma v_push_back_slot:
  "trivially_copyable T \<Longrightarrow> \<not> v_full h m \<Longrightarrow>
   read_slot T (v_data h) j (snd (v_push_back T h v m)) =
     (if j = unat (v_size h m) then v else read_slot T (v_data h) j m)"
  by (simp add: v_push_back_def Let_def v_addr_defs read_slot_write_u32
      read_slot_write_slot_same read_slot_write_slot_other)


lemma v_pop_back_result: "\<not> v_empty h m \<Longrightarrow> fst (v_pop_back h m) = True"
  by (simp add: v_pop_back_def)

lemma v_pop_back_signature: "v_signature h (snd (v_pop_back h m)) = v_signature h m"
  by (simp add: v_pop_back_def v_signature_def v_addr_defs read_write_u32_other)

lemma v_pop_back_size:
  "\<not> v_empty h m \<Longrightarrow> v_size h (snd (v_pop_back h m)) = v_size h m - 1"
  by (simp add: v_pop_back_def v_size_def read_write_u32_same)

lemma v_pop_back_slot:
  "read_slot T (v_data h) j (snd (v_pop_back h m)) = read_slot T (v_data h) j m"
  by (simp add: v_pop_back_def v_addr_defs read_slot_write_u32)

lemma v_contents_length: "length (v_contents T h m) = unat (v_size h m)"
  by (simp add: v_contents_def)

lemma v_contents_push_back:
  assumes tc: "trivially_copyable T" and lt: "unat (v_size h m) < unat (v_capacity h)"
  shows "v_contents T h (snd (v_push_back T h v m)) = v_contents T h m @ [v]"
proof -
  from lt have nf: "\<not> v_full h m" by (auto simp add: v_full_def)
  have s': "unat (v_size h (snd (v_push_back T h v m))) = Suc (unat (v_size h m))"
    by (simp add: v_push_back_size [OF nf] unat_succ_below [OF lt])
  show ?thesis
    by (simp add: v_contents_def s' v_push_back_slot [OF tc nf])
qed

lemma v_push_back_all_contents:
  assumes tc: "trivially_copyable T"
  shows "unat (v_size h m) + length vs \<le> unat (v_capacity h) \<Longrightarrow>
    fst (v_push_back_all T h vs m) = replicate (length vs) True
    \<and> v_contents T h (snd (v_push_back_all T h vs m)) = v_contents T h m @ vs"
proof (induction vs arbitrary: m)
  case Nil
  then show ?case by simp
next
  case (Cons v vs)
  from Cons.prems have lt: "unat (v_size h m) < unat (v_capacity h)" by simp
  then have nf: "\<not> v_full h m" by (auto simp add: v_full_def)
  note cont' = v_contents_push_back [OF tc lt, of v]
  have "unat (v_size h (snd (v_push_back T h v m))) = Suc (unat (v_size h m))"
    by (simp add: v_push_back_size [OF nf] unat_succ_below [OF lt])
  with Cons.prems
  have "unat (v_size h (snd (v_push_back T h v m))) + length vs \<le> unat (v_capacity h)"
    by simp
  from Cons.IH [OF this] v_push_back_result [OF nf, of T v] show ?case
    by (simp add: split_beta cont')
qed

lemma v_at_contents:
  assumes "i < unat (v_size h m)"
  shows "v_at T h (of_nat i) m = v_contents T h m ! i"
proof -
  have "unat (v_size h m) < 2 ^ LENGTH(32)" by (rule unsigned_less)
  with assms have "i < 2 ^ LENGTH(32)" by simp
  then have "unat (of_nat i :: 32 word) = i" by (simp add: unat_of_nat)
  with assms show ?thesis by (simp add: v_at_def v_contents_def)
qed

lemma v_contents_pop_back:
  assumes ne: "\<not> v_empty h m"
  shows "v_contents T h (snd (v_pop_back h m)) = butlast (v_contents T h m)"
proof -
  from ne have nz: "v_size h m \<noteq> 0" by (simp add: v_empty_def)
  have s': "unat (v_size h (snd (v_pop_back h m))) = unat (v_size h m) - 1"
    by (simp add: v_pop_back_size [OF ne] unat_pred_nonzero [OF nz])
  show ?thesis
    by (simp add: v_contents_def s' v_pop_back_slot butlast_conv_take take_map)
qed

section \<open>Header fields under sequences of calls\<close>

lemma q_step_signature: "q_signature h (snd (q_step T h c m)) = q_signature h m"
  by (cases c) (simp_all add: q_step_def split_beta q_push_signature q_pop_signature)

lemma q_run_signature: "q_signature h (snd (q_run T h cs m)) = q_signature h m"
  by (induction cs arbitrary: m) (simp_all add: split_beta q_step_signature)

lemma v_step_signature: "v_signature h (snd (v_step T h c m)) = v_signature h m"
  by (cases c) (simp_all add: v_step_def v_push_back_signature v_pop_back_signature)

lemma v_run_signature: "v_signature h (snd (v_run T h cs m)) = v_signature h m"
  by (induction cs arbitrary: m) (simp_all add: split_beta v_step_signature)





section \<open>Mounting\<close>

lemma persistent_queue_handle:
  "fst (persistent_queue off c m) = \<lparr> capacity_q = c, storage_q = off \<rparr>"
  by (simp add: persistent_queue_def Let_def)

lemma persistent_vector_handle:
  "fst (persistent_vector off c m) = \<lparr> capacity_v = c, storage_v = off \<rparr>"
  by (simp add: persistent_vector_def Let_def)

lemma persistent_queue_reuse:
  "read_u32 off m = q_SIGNATURE \<Longrightarrow>
   persistent_queue off c m = (\<lparr> capacity_q = c, storage_q = off \<rparr>, m)"
  by (simp add: persistent_queue_def Let_def q_signature_def q_signature_addr_def)

lemma persistent_vector_reuse:
  "read_u32 off m = v_SIGNATURE \<Longrightarrow>
   persistent_vector off c m = (\<lparr> capacity_v = c, storage_v = off \<rparr>, m)"
  by (simp add: persistent_vector_def Let_def v_signature_def v_signature_addr_def)

lemma persistent_queue_fresh:
  assumes "read_u32 off m \<noteq> q_SIGNATURE"
  shows "q_signature (fst (persistent_queue off c m)) (snd (persistent_queue off c m)) = q_SIGNATURE"
    and "q_begin (fst (persistent_queue off c m)) (snd (persistent_queue off c m)) = 0"
    and "q_end (fst (persistent_queue off c m)) (snd (persistent_queue off c m)) = 0"
    and "q_size (fst (persistent_queue off c m)) (snd (persistent_queue off c m)) = 0"
  using assms
  by (simp_all add: persistent_queue_def Let_def q_field_defs q_addr_defs
      read_write_u32_same read_write_u32_other)

lemma persistent_vector_fresh:
  assumes "read_u32 off m \<noteq> v_SIGNATURE"
  shows "v_signature (fst (persistent_vector off c m)) (snd (persistent_vector off c m)) = v_SIGNATURE"
    and "v_size (fst (persistent_vector off c m)) (snd (persistent_vector off c m)) = 0"
  using assms
  by (simp_all add: persistent_vector_def Let_def v_signature_def v_size_def v_addr_defs
      read_write_u32_same read_write_u32_other)

lemma persistent_queue_signature:
  "read_u32 off (snd (persistent_queue off c m)) = q_SIGNATURE"
proof (cases "read_u32 off m = q_SIGNATURE")
  case True
  then show ?thesis by (simp add: persistent_queue_reuse)
next
  case False
  from persistent_queue_fresh(1) [OF False, of c] show ?thesis
    by (simp add: persistent_queue_handle q_signature_def q_signature_addr_def)
qed

lemma persistent_vector_signature:
  "read_u32 off (snd (persistent_vector off c m)) = v_SIGNATURE"
proof (cases "read_u32 off m = v_SIGNATURE")
  case True
  then show ?thesis by (simp add: persistent_vector_reuse)
next
  case False
  from persistent_vector_fresh(1) [OF False, of c] show ?thesis
    by (simp add: persistent_vector_handle v_signature_def v_signature_addr_def)
qed

lemma persistent_queue_fresh_invariant:
  assumes "read_u32 off m \<noteq> q_SIGNATURE" and "0 < unat c"
  shows "q_invariant (fst (persistent_queue off c m)) (snd (persistent_queue off c m))"
  using assms(2)
  by (simp add: q_invariant_def persistent_queue_fresh [OF assms(1)])
    (simp add: persistent_queue_handle q_capacity_def)

section \<open>Mount protocol\<close>

text \<open>
  Claim C4. Mounting is idempotent: over a region whose signature field already holds
  the magic constant, constructing a queue or a vector handle (any capacity) writes
  nothing: the buffer after the constructor is the buffer before it, and the handle
  is the pair of the given capacity and offset. A second mount at the same offset
  and capacity, with no write in between, therefore returns the same handle and the
  same buffer, so \<open>size\<close>, \<open>begin\<close>, \<open>end\<close> and every slot read the same as
  through the first handle.
\<close>

theorem mount_idempotent:
  assumes "read_u32 offq mq = q_SIGNATURE" and "read_u32 offv mv = v_SIGNATURE"
  shows "persistent_queue offq cq mq = (\<lparr> capacity_q = cq, storage_q = offq \<rparr>, mq)
    \<and> persistent_queue offq cq (snd (persistent_queue offq cq mq)) = persistent_queue offq cq mq
    \<and> persistent_vector offv cv mv = (\<lparr> capacity_v = cv, storage_v = offv \<rparr>, mv)
    \<and> persistent_vector offv cv (snd (persistent_vector offv cv mv)) = persistent_vector offv cv mv"
  using assms by (simp add: persistent_queue_reuse persistent_vector_reuse)

text \<open>
  The theorem at a queue and a vector that each hold the values 7 and 8: the second
  mount leaves the buffer as the pushes left it.
\<close>

theorem mount_idempotent_witness:
  "read_u32 0 (snd (q_push_all unsigned_type demo_q [7, 8] demo_q_fresh)) = q_SIGNATURE
   \<and> read_u32 32 (snd (v_push_back_all unsigned_type demo_v [7, 8] demo_v_fresh)) = v_SIGNATURE
   \<and> persistent_queue 0 4 (snd (q_push_all unsigned_type demo_q [7, 8] demo_q_fresh))
      = (\<lparr> capacity_q = 4, storage_q = 0 \<rparr>,
         snd (q_push_all unsigned_type demo_q [7, 8] demo_q_fresh))
   \<and> persistent_vector 32 4 (snd (v_push_back_all unsigned_type demo_v [7, 8] demo_v_fresh))
      = (\<lparr> capacity_v = 4, storage_v = 32 \<rparr>,
         snd (v_push_back_all unsigned_type demo_v [7, 8] demo_v_fresh))"
proof -
  have q: "read_u32 0 (snd (q_push_all unsigned_type demo_q [7, 8] demo_q_fresh)) = q_SIGNATURE"
    by code_simp
  have v: "read_u32 32 (snd (v_push_back_all unsigned_type demo_v [7, 8] demo_v_fresh))
      = v_SIGNATURE"
    by code_simp
  from q v mount_idempotent [OF q v, of 4 4] show ?thesis
    by (simp del: q_push_all.simps v_push_back_all.simps)
qed

text \<open>
  Claim C5. Whatever bytes the buffer holds, if the signature field of the region
  differs from the magic constant then the constructor leaves an empty container:
  for the queue the signature is the magic constant and \<open>size\<close>, \<open>begin\<close> and
  \<open>end\<close> are zero; for the vector the signature is the magic constant and
  \<open>size\<close> is zero.
\<close>

theorem mount_initialises_empty:
  assumes "read_u32 offq mq \<noteq> q_SIGNATURE" and "read_u32 offv mv \<noteq> v_SIGNATURE"
  shows "q_signature (fst (persistent_queue offq cq mq)) (snd (persistent_queue offq cq mq)) = q_SIGNATURE
    \<and> q_size (fst (persistent_queue offq cq mq)) (snd (persistent_queue offq cq mq)) = 0
    \<and> q_begin (fst (persistent_queue offq cq mq)) (snd (persistent_queue offq cq mq)) = 0
    \<and> q_end (fst (persistent_queue offq cq mq)) (snd (persistent_queue offq cq mq)) = 0
    \<and> q_empty (fst (persistent_queue offq cq mq)) (snd (persistent_queue offq cq mq))
    \<and> v_signature (fst (persistent_vector offv cv mv)) (snd (persistent_vector offv cv mv)) = v_SIGNATURE
    \<and> v_size (fst (persistent_vector offv cv mv)) (snd (persistent_vector offv cv mv)) = 0
    \<and> v_empty (fst (persistent_vector offv cv mv)) (snd (persistent_vector offv cv mv))"
  using persistent_queue_fresh [OF assms(1), of cq] persistent_vector_fresh [OF assms(2), of cv]
  by (simp add: q_empty_def v_empty_def)

text \<open>The theorem at the erased buffer, whose signature fields read \<^verbatim>\<open>0xffffffff\<close>.\<close>

theorem mount_initialises_empty_witness:
  "read_u32 0 erased \<noteq> q_SIGNATURE \<and> read_u32 32 erased \<noteq> v_SIGNATURE
   \<and> q_size demo_q demo_q_fresh = 0 \<and> q_begin demo_q demo_q_fresh = 0
   \<and> q_end demo_q demo_q_fresh = 0 \<and> v_size demo_v demo_v_fresh = 0"
proof -
  have q: "read_u32 0 erased \<noteq> q_SIGNATURE" by code_simp
  have v: "read_u32 32 erased \<noteq> v_SIGNATURE" by code_simp
  from q v mount_initialises_empty [OF q v, of 4 4] show ?thesis
    by (simp add: demo_q_def demo_q_fresh_def demo_v_def demo_v_fresh_def)
qed

section \<open>Rejected calls\<close>

text \<open>
  Claim C6. When \<open>full()\<close> holds, \<open>push\<close> on the queue and \<open>push_back\<close> on
  the vector return false and the buffer after the call is the buffer before it, so
  \<open>size\<close>, \<open>begin\<close>, \<open>end\<close> and all slots are unchanged.
\<close>

theorem push_on_full_rejected:
  assumes "q_full hq mq" and "v_full hv mv"
  shows "q_push T hq x mq = (False, mq) \<and> v_push_back T' hv y mv = (False, mv)"
  using assms by (simp add: q_push_def v_push_back_def)

text \<open>The theorem at a queue and a vector of capacity 4 after four insertions.\<close>

theorem push_on_full_rejected_witness:
  "q_full demo_q scenario_full
   \<and> v_full demo_v (snd (v_push_back_all unsigned_type demo_v [1, 2, 3, 4] demo_v_fresh))
   \<and> q_push unsigned_type demo_q 5 scenario_full = (False, scenario_full)
   \<and> v_push_back unsigned_type demo_v 5
         (snd (v_push_back_all unsigned_type demo_v [1, 2, 3, 4] demo_v_fresh))
       = (False, snd (v_push_back_all unsigned_type demo_v [1, 2, 3, 4] demo_v_fresh))"
proof -
  have q: "q_full demo_q scenario_full"
    by code_simp
  have v: "v_full demo_v (snd (v_push_back_all unsigned_type demo_v [1, 2, 3, 4] demo_v_fresh))"
    by code_simp
  from q v push_on_full_rejected [OF q v, of unsigned_type 5 unsigned_type 5]
  show ?thesis by (simp del: v_push_back_all.simps)
qed

text \<open>
  Claim C7. When \<open>empty()\<close> holds, \<open>pop\<close> on the queue and \<open>pop_back\<close> on
  the vector return false and the buffer after the call is the buffer before it, so
  \<open>size\<close>, \<open>begin\<close>, \<open>end\<close> and all slots are unchanged.
\<close>

theorem pop_on_empty_rejected:
  assumes "q_empty hq mq" and "v_empty hv mv"
  shows "q_pop hq mq = (False, mq) \<and> v_pop_back hv mv = (False, mv)"
  using assms by (simp add: q_pop_def v_pop_back_def)

text \<open>The theorem at the freshly mounted queue and vector.\<close>

theorem pop_on_empty_rejected_witness:
  "q_empty demo_q demo_q_fresh \<and> v_empty demo_v demo_v_fresh
   \<and> q_pop demo_q demo_q_fresh = (False, demo_q_fresh)
   \<and> v_pop_back demo_v demo_v_fresh = (False, demo_v_fresh)"
proof -
  have q: "q_empty demo_q demo_q_fresh" by code_simp
  have v: "v_empty demo_v demo_v_fresh" by code_simp
  from q v pop_on_empty_rejected [OF q v] show ?thesis by simp
qed

section \<open>One signature for both containers\<close>

text \<open>
  Claim C9. The queue and the vector use the same magic constant
  \<^verbatim>\<open>0xa2bedef9\<close>. So a queue mounted at an offset where a vector was mounted
  (and used) before finds its signature, writes nothing, and reads the vector's
  header as its own; the same holds for a vector mounted over a queue. In
  particular the queue's \<open>begin\<close> field is the vector's \<open>size\<close> field: both are
  the four bytes at offset 4 of the header.
\<close>

theorem shared_signature_reinterprets:
  "q_SIGNATURE = 0xa2bedef9 \<and> v_SIGNATURE = 0xa2bedef9
   \<and> persistent_queue off cq
        (snd (v_run T \<lparr> capacity_v = cv, storage_v = off \<rparr> vs (snd (persistent_vector off cv m))))
      = (\<lparr> capacity_q = cq, storage_q = off \<rparr>,
         snd (v_run T \<lparr> capacity_v = cv, storage_v = off \<rparr> vs (snd (persistent_vector off cv m))))
   \<and> persistent_vector off cv
        (snd (q_run T \<lparr> capacity_q = cq, storage_q = off \<rparr> qs (snd (persistent_queue off cq m))))
      = (\<lparr> capacity_v = cv, storage_v = off \<rparr>,
         snd (q_run T \<lparr> capacity_q = cq, storage_q = off \<rparr> qs (snd (persistent_queue off cq m))))
   \<and> q_begin \<lparr> capacity_q = cq, storage_q = off \<rparr> m'
      = v_size \<lparr> capacity_v = cv, storage_v = off \<rparr> m'"
proof -
  let ?hv = "\<lparr> capacity_v = cv, storage_v = off \<rparr>"
  let ?hq = "\<lparr> capacity_q = cq, storage_q = off \<rparr>"
  have "v_signature ?hv (snd (v_run T ?hv vs (snd (persistent_vector off cv m)))) = v_SIGNATURE"
    by (simp add: v_run_signature) (simp add: v_signature_def v_signature_addr_def
        persistent_vector_signature)
  then have v: "read_u32 off (snd (v_run T ?hv vs (snd (persistent_vector off cv m)))) = q_SIGNATURE"
    by (simp add: v_signature_def v_signature_addr_def q_SIGNATURE_def v_SIGNATURE_def)
  have "q_signature ?hq (snd (q_run T ?hq qs (snd (persistent_queue off cq m)))) = q_SIGNATURE"
    by (simp add: q_run_signature) (simp add: q_signature_def q_signature_addr_def
        persistent_queue_signature)
  then have q: "read_u32 off (snd (q_run T ?hq qs (snd (persistent_queue off cq m)))) = v_SIGNATURE"
    by (simp add: q_signature_def q_signature_addr_def q_SIGNATURE_def v_SIGNATURE_def)
  have f: "q_begin ?hq m' = v_size ?hv m'"
    by (simp add: q_begin_def v_size_def q_begin_addr_def v_size_addr_def)
  from persistent_queue_reuse [OF v, of cq] persistent_vector_reuse [OF q, of cv] f
  show ?thesis by (simp add: q_SIGNATURE_def v_SIGNATURE_def)
qed

section \<open>A stored size above the capacity\<close>

subsection \<open>The store with 32-bit addresses\<close>



text \<open>Below the end of the address space the two stores are the same.\<close>

lemma write_bytes32_in_range:
  "a + length bs \<le> 2 ^ 32 \<Longrightarrow> write_bytes32 a bs m = write_bytes a bs m"
proof (induction bs arbitrary: a m)
  case Nil
  show ?case by (rule ext) (auto simp add: write_bytes_def)
next
  case (Cons b bs)
  from Cons.prems have lt: "a < 2 ^ 32" and le: "a + 1 + length bs \<le> 2 ^ 32" by simp_all
  from lt have w: "wrap32 a = a" by (simp add: wrap32_def)
  have "write_bytes32 (a + 1) bs (m(a := b)) = write_bytes (a + 1) bs (m(a := b))"
    by (rule Cons.IH [OF le])
  also have "\<dots> = write_bytes a (b # bs) m"
    by (rule ext) (auto simp add: write_bytes_def nth_Cons')
  finally show ?case by (simp add: w)
qed

lemma write_slot32_in_range:
  "d + i * sizeof T + length (store T v) \<le> 2 ^ 32 \<Longrightarrow>
   write_slot32 T d i v m = write_slot T d i v m"
  by (simp add: write_slot32_def write_slot_def write_bytes32_in_range)

lemma q_push32_in_range:
  "q_data h + unat (q_end h m) * sizeof T + length (store T v) \<le> 2 ^ 32 \<Longrightarrow>
   q_push32 T h v m = q_push T h v m"
  by (simp add: q_push32_def q_push_def write_slot32_def write_slot_def write_bytes32_in_range)

lemma v_push_back32_in_range:
  "v_data h + unat (v_size h m) * sizeof T + length (store T v) \<le> 2 ^ 32 \<Longrightarrow>
   v_push_back32 T h v m = v_push_back T h v m"
  by (simp add: v_push_back32_def v_push_back_def write_slot32_def write_slot_def
      write_bytes32_in_range)





subsection \<open>The concrete states\<close>









subsection \<open>The claim\<close>




section \<open>First-in first-out order\<close>

text \<open>
  Claim C1. Take a queue in a valid state (the header invariant holds, which
  includes a capacity above zero) that is empty, and values \<open>p1 .. pk\<close> with
  \<open>k\<close> at most the capacity. Then the \<open>k\<close> pushes all return true, and in the
  \<open>k\<close> rounds of \<open>front()\<close> followed by \<open>pop()\<close> that come after them the
  values read by \<open>front()\<close> are \<open>p1, p2, .., pk\<close> in this order and every
  \<open>pop()\<close> returns true.
\<close>

theorem queue_fifo_order:
  assumes "trivially_copyable T" and "q_invariant h m" and "q_empty h m"
    and "length ps \<le> unat (q_capacity h)"
  shows "fst (q_push_all T h ps m) = replicate (length ps) True
    \<and> fst (q_drain T h (length ps) (snd (q_push_all T h ps m))) = map (\<lambda>p. (p, True)) ps"
proof -
  from assms(3) have e: "q_contents T h m = []" by (simp add: q_empty_contents)
  with assms(4) have "length (q_contents T h m) + length ps \<le> unat (q_capacity h)" by simp
  note pushed = q_push_all_fifo [OF assms(1) assms(2) this]
  from pushed e have c: "q_contents T h (snd (q_push_all T h ps m)) = ps" by simp
  then have "length ps \<le> length (q_contents T h (snd (q_push_all T h ps m)))" by simp
  from q_drain_fifo [OF conjunct1 [OF conjunct2 [OF pushed]] this] pushed c
  show ?thesis by simp
qed

text \<open>
  The theorem at the freshly mounted queue of capacity 4, with the values 10, 20, 30.
\<close>

theorem queue_fifo_order_witness:
  "trivially_copyable unsigned_type \<and> q_invariant demo_q demo_q_fresh \<and> q_empty demo_q demo_q_fresh
   \<and> length [10, 20, 30 :: 32 word] \<le> unat (q_capacity demo_q)
   \<and> fst (q_drain unsigned_type demo_q (length [10, 20, 30 :: 32 word])
            (snd (q_push_all unsigned_type demo_q [10, 20, 30] demo_q_fresh)))
      = [(10, True), (20, True), (30, True)]"
proof -
  have i: "q_invariant demo_q demo_q_fresh" by code_simp
  have e: "q_empty demo_q demo_q_fresh" by code_simp
  have l: "length [10, 20, 30 :: 32 word] \<le> unat (q_capacity demo_q)" by code_simp
  from i e l queue_fifo_order [OF unsigned_type_copyable i e l] unsigned_type_copyable
  show ?thesis by (simp del: q_push_all.simps q_drain.simps)
qed

section \<open>The header invariant\<close>

text \<open>
  Claim C2, for a capacity above zero. After a mount that initialised the region,
  every sequence of \<open>push\<close> and \<open>pop\<close> calls leads to a state in which
  \<open>size\<close> is at most the capacity, \<open>begin\<close> and \<open>end\<close> are below the
  capacity, and \<open>end\<close> is \<open>begin + size\<close> modulo the capacity.
\<close>

theorem queue_invariant_reachable:
  assumes "read_u32 off m \<noteq> q_SIGNATURE" and "0 < unat c"
  shows "q_invariant (fst (persistent_queue off c m))
     (snd (q_run T (fst (persistent_queue off c m)) cs (snd (persistent_queue off c m))))"
  by (rule q_run_invariant [OF persistent_queue_fresh_invariant [OF assms]])

text \<open>
  With capacity 0 the claim as stated fails: the constructor accepts the capacity,
  the fresh state has \<open>begin = 0\<close>, and 0 is not below the capacity 0.
\<close>

theorem queue_invariant_capacity_zero:
  "read_u32 0 erased \<noteq> q_SIGNATURE
   \<and> \<not> unat (q_begin (fst (persistent_queue 0 0 erased)) (snd (persistent_queue 0 0 erased)))
        < unat (q_capacity (fst (persistent_queue 0 0 erased)))
   \<and> \<not> q_invariant (fst (persistent_queue 0 0 erased)) (snd (persistent_queue 0 0 erased))"
  by code_simp

text \<open>The theorem at the queue of capacity 4 after calls that wrap both indices.\<close>

theorem queue_invariant_reachable_witness:
  "read_u32 0 erased \<noteq> q_SIGNATURE \<and> 0 < unat (4 :: 32 word)
   \<and> q_invariant (fst (persistent_queue 0 4 erased))
       (snd (q_run unsigned_type (fst (persistent_queue 0 4 erased)) scenario_ops
          (snd (persistent_queue 0 4 erased))))"
proof -
  have f: "read_u32 0 erased \<noteq> q_SIGNATURE" by code_simp
  have c: "0 < unat (4 :: 32 word)" by simp
  from f c queue_invariant_reachable [OF f c, of unsigned_type] show ?thesis
    by (simp del: q_run.simps)
qed

section \<open>Wraparound\<close>

text \<open>
  Claim C3, as the code has it. From any valid state, every sequence of \<open>push\<close>
  and \<open>pop\<close> calls returns what the bounded first-in first-out list of the
  specification returns, call by call (the results of \<open>push\<close> and \<open>pop\<close> and
  the value of \<open>front()\<close> before each successful \<open>pop\<close>), and leaves the
  list's contents in the occupied slots, wherever \<open>begin\<close> and \<open>end\<close> wrap.
  In the scenario (capacity 4, fresh mount): the pushes of 1, 2, 3, 4 succeed and
  the push of 5 on the full queue is rejected; \<open>end\<close> is 3 after the third push
  and wraps to 0 with the fourth; after one pop the push of 5 succeeds, stores 5 in
  slot 0 and moves \<open>end\<close> from 0 to 1; the four pops that follow see the front
  values 2, 3, 4, 5 and leave the queue empty.
\<close>

theorem wraparound_fifo:
  assumes "trivially_copyable T" and "q_invariant h m"
  shows "fst (q_run T h cs m) = fst (fifo_run (unat (q_capacity h)) cs (q_contents T h m))
    \<and> q_contents T h (snd (q_run T h cs m))
        = snd (fifo_run (unat (q_capacity h)) cs (q_contents T h m))
    \<and> fst (q_run unsigned_type demo_q scenario_ops demo_q_fresh)
        = [Pushed True, Pushed True, Pushed True, Pushed True, Pushed False,
           Popped (Some 1) True, Pushed True, Popped (Some 2) True, Popped (Some 3) True,
           Popped (Some 4) True, Popped (Some 5) True]
    \<and> q_empty demo_q (snd (q_run unsigned_type demo_q scenario_ops demo_q_fresh))
    \<and> q_end demo_q scenario_three = 3 \<and> q_end demo_q scenario_full = 0
    \<and> q_end demo_q scenario_popped = 0 \<and> q_end demo_q scenario_wrapped = 1
    \<and> read_slot unsigned_type (q_data demo_q) 0 scenario_wrapped = 5"
proof -
  have a: "fst (q_run unsigned_type demo_q scenario_ops demo_q_fresh)
        = [Pushed True, Pushed True, Pushed True, Pushed True, Pushed False,
           Popped (Some 1) True, Pushed True, Popped (Some 2) True, Popped (Some 3) True,
           Popped (Some 4) True, Popped (Some 5) True]"
    by code_simp
  have b: "q_empty demo_q (snd (q_run unsigned_type demo_q scenario_ops demo_q_fresh))"
    by code_simp
  have c: "q_end demo_q scenario_three = 3 \<and> q_end demo_q scenario_full = 0
    \<and> q_end demo_q scenario_popped = 0 \<and> q_end demo_q scenario_wrapped = 1"
    by code_simp
  have d: "read_slot unsigned_type (q_data demo_q) 0 scenario_wrapped = 5"
    by code_simp
  from q_run_refines [OF assms, of cs] a b c d show ?thesis
    by (simp del: q_run.simps fifo_run.simps)
qed

text \<open>
  The claim as stated has \<open>end\<close> wrap from index 3 to index 0 in the push of 5.
  In the scenario \<open>end\<close> is already 0 before that push, and 1 after it.
\<close>

theorem wraparound_end_at_fifth_push:
  "q_full demo_q scenario_full
   \<and> q_end demo_q scenario_popped = 0
   \<and> fst (q_push unsigned_type demo_q 5 scenario_popped)
   \<and> q_end demo_q scenario_wrapped = 1
   \<and> \<not> (q_end demo_q scenario_popped = 3 \<and> q_end demo_q scenario_wrapped = 0)"
  by code_simp

text \<open>
  The theorem at the scenario's state after the first pop, where the queue holds
  2, 3, 4 from slot 1 on: the push of 5 and five pops.
\<close>

theorem wraparound_fifo_witness:
  "trivially_copyable unsigned_type \<and> q_invariant demo_q scenario_popped
   \<and> fst (q_run unsigned_type demo_q [Push 5, Pop, Pop, Pop, Pop, Pop] scenario_popped)
      = fst (fifo_run (unat (q_capacity demo_q)) [Push 5, Pop, Pop, Pop, Pop, Pop]
              (q_contents unsigned_type demo_q scenario_popped))
   \<and> q_contents unsigned_type demo_q scenario_popped = [2, 3, 4]"
proof -
  have i: "q_invariant demo_q scenario_popped" by code_simp
  have c: "q_contents unsigned_type demo_q scenario_popped = [2, 3, 4]" by code_simp
  from i c unsigned_type_copyable
    wraparound_fifo [OF unsigned_type_copyable i, of "[Push 5, Pop, Pop, Pop, Pop, Pop]"]
  show ?thesis by (simp del: q_run.simps fifo_run.simps)
qed

section \<open>Order in the vector\<close>

text \<open>
  Claim C8, for at least one value. On an empty vector, pushing \<open>v1 .. vk\<close> with
  \<open>k\<close> at most the capacity succeeds every time, \<open>size\<close> is \<open>k\<close> and
  \<open>operator[](i)\<close> returns the value pushed at position \<open>i\<close> for every
  \<open>i < k\<close>. If \<open>k\<close> is at least 1, one \<open>pop_back\<close> then returns true,
  \<open>size\<close> goes down by exactly 1, and \<open>operator[](i)\<close> still returns the same
  value for every \<open>i < k - 1\<close>.
\<close>

theorem vector_order:
  assumes "trivially_copyable T" and "v_empty h m" and "length vs \<le> unat (v_capacity h)"
  shows "fst (v_push_back_all T h vs m) = replicate (length vs) True
    \<and> unat (v_size h (snd (v_push_back_all T h vs m))) = length vs
    \<and> (\<forall>i<length vs. v_at T h (of_nat i) (snd (v_push_back_all T h vs m)) = vs ! i)
    \<and> (vs \<noteq> [] \<longrightarrow>
         fst (v_pop_back h (snd (v_push_back_all T h vs m)))
         \<and> unat (v_size h (snd (v_pop_back h (snd (v_push_back_all T h vs m))))) + 1
             = unat (v_size h (snd (v_push_back_all T h vs m)))
         \<and> (\<forall>i<length vs - 1.
               v_at T h (of_nat i) (snd (v_pop_back h (snd (v_push_back_all T h vs m)))) = vs ! i))"
proof -
  let ?m1 = "snd (v_push_back_all T h vs m)"
  let ?m2 = "snd (v_pop_back h ?m1)"
  from assms(2) have z: "unat (v_size h m) = 0" by (simp add: v_empty_def)
  then have e: "v_contents T h m = []" by (simp add: v_contents_def)
  from z assms(3) have "unat (v_size h m) + length vs \<le> unat (v_capacity h)" by simp
  note pushed = v_push_back_all_contents [OF assms(1) this]
  from pushed e have c1: "v_contents T h ?m1 = vs" by simp
  then have s1: "unat (v_size h ?m1) = length vs"
    using v_contents_length [of T h ?m1] by simp
  have r1: "v_at T h (of_nat i) ?m1 = vs ! i" if "i < length vs" for i
    using that v_at_contents [of i h ?m1 T] by (simp add: s1 c1)
  have p: "fst (v_pop_back h ?m1)
      \<and> unat (v_size h ?m2) + 1 = unat (v_size h ?m1)
      \<and> (\<forall>i<length vs - 1. v_at T h (of_nat i) ?m2 = vs ! i)" if ne: "vs \<noteq> []"
  proof -
    from ne s1 have nz: "\<not> v_empty h ?m1" by (auto simp add: v_empty_def)
    have c2: "v_contents T h ?m2 = butlast vs"
      by (simp add: v_contents_pop_back [OF nz] c1)
    then have s2: "unat (v_size h ?m2) = length vs - 1"
      using v_contents_length [of T h ?m2] by simp
    have "v_at T h (of_nat i) ?m2 = vs ! i" if "i < length vs - 1" for i
      using that v_at_contents [of i h ?m2 T] by (simp add: s2 c2 nth_butlast)
    with ne s1 s2 v_pop_back_result [OF nz] show ?thesis by simp
  qed
  from pushed s1 r1 p show ?thesis by blast
qed

text \<open>
  With no value pushed (\<open>k = 0\<close>) the claim as stated fails: \<open>pop_back\<close> on the
  empty vector returns false and \<open>size\<close> stays 0.
\<close>

theorem pop_back_after_no_push:
  "v_empty demo_v demo_v_fresh
   \<and> fst (v_push_back_all unsigned_type demo_v [] demo_v_fresh) = []
   \<and> \<not> fst (v_pop_back demo_v (snd (v_push_back_all unsigned_type demo_v [] demo_v_fresh)))
   \<and> unat (v_size demo_v
        (snd (v_pop_back demo_v (snd (v_push_back_all unsigned_type demo_v [] demo_v_fresh))))) + 1
      \<noteq> unat (v_size demo_v (snd (v_push_back_all unsigned_type demo_v [] demo_v_fresh)))"
  by code_simp

text \<open>The theorem at the fresh vector of capacity 4 with the values 10, 20, 30.\<close>

theorem vector_order_witness:
  "trivially_copyable unsigned_type \<and> v_empty demo_v demo_v_fresh
   \<and> length [10, 20, 30 :: 32 word] \<le> unat (v_capacity demo_v)
   \<and> v_at unsigned_type demo_v 2 (snd (v_push_back_all unsigned_type demo_v [10, 20, 30] demo_v_fresh))
       = 30
   \<and> fst (v_pop_back demo_v (snd (v_push_back_all unsigned_type demo_v [10, 20, 30] demo_v_fresh)))
   \<and> v_at unsigned_type demo_v 1
       (snd (v_pop_back demo_v (snd (v_push_back_all unsigned_type demo_v [10, 20, 30] demo_v_fresh))))
       = 20"
proof -
  have e: "v_empty demo_v demo_v_fresh" by code_simp
  have l: "length [10, 20, 30 :: 32 word] \<le> unat (v_capacity demo_v)" by code_simp
  note t = vector_order [OF unsigned_type_copyable e l]
  note reads = t [THEN conjunct2, THEN conjunct2, THEN conjunct1, rule_format]
  note popped = t [THEN conjunct2, THEN conjunct2, THEN conjunct2, rule_format]
  have ne: "[10, 20, 30 :: 32 word] \<noteq> []" by simp
  from reads [of 2] have a: "v_at unsigned_type demo_v 2
      (snd (v_push_back_all unsigned_type demo_v [10, 20, 30] demo_v_fresh)) = 30"
    by (simp del: v_push_back_all.simps)
  from popped [OF ne, THEN conjunct1] have b: "fst (v_pop_back demo_v
      (snd (v_push_back_all unsigned_type demo_v [10, 20, 30] demo_v_fresh)))" .
  from popped [OF ne, THEN conjunct2, THEN conjunct2, rule_format, of 1]
  have c: "v_at unsigned_type demo_v 1
      (snd (v_pop_back demo_v (snd (v_push_back_all unsigned_type demo_v [10, 20, 30] demo_v_fresh))))
      = 20"
    by (simp del: v_push_back_all.simps)
  from a b c e l unsigned_type_copyable show ?thesis by (simp del: v_push_back_all.simps)
qed

end
